theory Spec2Isabelle
  imports Complex_Main
begin

section \<open>Milestone processing (package tangle, \<^verbatim>\<open>processValidMilestone\<close>)\<close>

text \<open>
  A milestone index is an unsigned integer of the ledger; the code only compares
  indexes (\<^verbatim>\<open><\<close>, \<^verbatim>\<open>>\<close>) and prints them, so they are natural numbers here.
  A bundle carries its milestone index and its milestone hash; a cached bundle is a
  reference-counted handle on a bundle. The field names are the getters of the source.
\<close>

type_synonym milestone_index = nat

record Bundle =
  GetMilestoneIndex :: milestone_index
  GetMilestoneHash :: string

record CachedBundle =
  handle :: nat
  GetBundle :: Bundle

text \<open>The diagnostic of \<^verbatim>\<open>log.Panicf("Synced too far! Index: %d (%v), PruningIndex: %d", ...)\<close>:
  the index, the hash and the pruning index, in the order of the format string.\<close>

datatype panic = SyncedTooFar milestone_index string milestone_index

text \<open>
  Everything \<^verbatim>\<open>processValidMilestone\<close> does to the rest of the node, in program order:
  reference counting on the handle, the events, the reads of the global indexes, the
  calls into the storage layer, the worker pool and the gossip layer, and the log lines.
\<close>

datatype action =
    DoRetain nat
  | DoRelease nat
  | ReceivedNewMilestone CachedBundle
  | ReadSolidMilestoneIndex
  | ReadLatestMilestoneIndex
  | ReadSnapshotInfo
  | CallSetLatestMilestone CachedBundle
  | LogError string
  | LatestMilestoneChanged CachedBundle
  | SubmitSolidificationTask milestone_index bool
  | LogValidMilestone milestone_index string
  | CallRequestMilestoneApprovees CachedBundle
  | LogPanic panic

text \<open>
  The state the function runs in: the three global indexes, the reference count of
  every handle, the storage layer's answer to the k-th call of
  \<^verbatim>\<open>tangle.SetLatestMilestone\<close> (\<open>None\<close> is Go's \<^verbatim>\<open>nil\<close> error), the number of
  such calls made so far, and the actions performed so far, oldest first.
\<close>

record tangle_state =
  solidMilestoneIndex :: milestone_index
  latestMilestoneIndex :: milestone_index
  pruningIndex :: milestone_index
  refCount :: "nat \<Rightarrow> int"
  persistErr :: "nat \<Rightarrow> string option"
  persistCalls :: nat
  trace :: "action list"

text \<open>A call either returns or panics; a panic still carries the state, since the
  deferred calls run while the panic unwinds.\<close>

datatype outcome = Returned tangle_state | Panicked panic tangle_state

definition emit :: "action \<Rightarrow> tangle_state \<Rightarrow> tangle_state" where
  "emit a s = s\<lparr>trace := trace s @ [a]\<rparr>"

definition Retain :: "CachedBundle \<Rightarrow> tangle_state \<Rightarrow> tangle_state" where
  "Retain c s =
     emit (DoRetain (handle c)) (s\<lparr>refCount := (refCount s)(handle c := refCount s (handle c) + 1)\<rparr>)"

definition Release :: "CachedBundle \<Rightarrow> tangle_state \<Rightarrow> tangle_state" where
  "Release c s =
     emit (DoRelease (handle c)) (s\<lparr>refCount := (refCount s)(handle c := refCount s (handle c) - 1)\<rparr>)"

definition GetSolidMilestoneIndex :: "tangle_state \<Rightarrow> milestone_index \<times> tangle_state" where
  "GetSolidMilestoneIndex s = (solidMilestoneIndex s, emit ReadSolidMilestoneIndex s)"

definition GetLatestMilestoneIndex :: "tangle_state \<Rightarrow> milestone_index \<times> tangle_state" where
  "GetLatestMilestoneIndex s = (latestMilestoneIndex s, emit ReadLatestMilestoneIndex s)"

definition GetSnapshotInfoPruningIndex :: "tangle_state \<Rightarrow> milestone_index \<times> tangle_state" where
  "GetSnapshotInfoPruningIndex s = (pruningIndex s, emit ReadSnapshotInfo s)"

text \<open>
  Modelled from the spec: the event bus (\<^verbatim>\<open>Events.ReceivedNewMilestone.Trigger\<close> and
  \<^verbatim>\<open>Events.LatestMilestoneChanged.Trigger\<close>) is not part of the sources. The spec
  publishes each event ``passing an additional retained reference to observers'', and
  the source marks both calls \<^verbatim>\<open>// bundle pass +1\<close>: the trigger retains the handle once
  and hands that reference to the observers.
\<close>

definition TriggerReceivedNewMilestone :: "CachedBundle \<Rightarrow> tangle_state \<Rightarrow> tangle_state" where
  "TriggerReceivedNewMilestone c s = emit (ReceivedNewMilestone c) (Retain c s)"

definition TriggerLatestMilestoneChanged :: "CachedBundle \<Rightarrow> tangle_state \<Rightarrow> tangle_state" where
  "TriggerLatestMilestoneChanged c s = emit (LatestMilestoneChanged c) (Retain c s)"

text \<open>
  Modelled from the spec: \<^verbatim>\<open>tangle.SetLatestMilestone\<close> is not part of the sources. The
  spec: ``attempt to persist marker as the new latest checkpoint. On persistence failure
  [...] the in-memory pointer is not advanced [...]. On success, atomically set
  latestIndex = idx''. Whether the attempt fails is the storage layer's answer for this
  call. The function receives the reference its caller retained for it.
\<close>

definition SetLatestMilestone :: "CachedBundle \<Rightarrow> tangle_state \<Rightarrow> string option \<times> tangle_state" where
  "SetLatestMilestone c s =
     (let err = persistErr s (persistCalls s);
          s' = emit (CallSetLatestMilestone c) (s\<lparr>persistCalls := persistCalls s + 1\<rparr>)
      in case err of
           None \<Rightarrow> (None, s'\<lparr>latestMilestoneIndex := GetMilestoneIndex (GetBundle c)\<rparr>)
         | Some e \<Rightarrow> (Some e, s'))"

text \<open>\<^verbatim>\<open>gossip.RequestMilestoneApprovees\<close> (the request for trunk and branch) and the
  submission to the solidifier worker pool are calls into other packages: they are
  recorded, and the submitted task runs later, outside this call.\<close>

definition RequestMilestoneApprovees :: "CachedBundle \<Rightarrow> tangle_state \<Rightarrow> tangle_state" where
  "RequestMilestoneApprovees c s = emit (CallRequestMilestoneApprovees c) s"

definition Submit :: "milestone_index \<Rightarrow> bool \<Rightarrow> tangle_state \<Rightarrow> tangle_state" where
  "Submit i force s = emit (SubmitSolidificationTask i force) s"

text \<open>\<^verbatim>\<open>defer f\<close>: \<open>f\<close> runs when the function returns and also when it panics.\<close>

fun deferred :: "(tangle_state \<Rightarrow> tangle_state) \<Rightarrow> outcome \<Rightarrow> outcome" where
  "deferred f (Returned s) = Returned (f s)"
| "deferred f (Panicked p s) = Panicked p (f s)"

text \<open>The \<^verbatim>\<open>if latestMilestoneIndex < bundleMsIndex\<close> block (source lines 23 to 30): the
  error of \<^verbatim>\<open>SetLatestMilestone\<close> is logged, and the event is triggered after the
  \<^verbatim>\<open>if err != nil\<close> statement, on both of its paths.\<close>

definition updateLatest :: "CachedBundle \<Rightarrow> milestone_index \<Rightarrow> milestone_index \<Rightarrow> tangle_state \<Rightarrow> tangle_state" where
  "updateLatest cachedBndl latestMsIndex bundleMsIndex s =
     (if latestMsIndex < bundleMsIndex then
        (let (err, s1) = SetLatestMilestone cachedBndl (Retain cachedBndl s);
             s2 = (case err of Some e \<Rightarrow> emit (LogError e) s1 | None \<Rightarrow> s1)
         in TriggerLatestMilestoneChanged cachedBndl s2)
      else s)"

text \<open>The final \<^verbatim>\<open>if bundleMsIndex > solidMsIndex ... else ...\<close> (source lines 33 to 45).\<close>

definition requestOrCheck :: "CachedBundle \<Rightarrow> milestone_index \<Rightarrow> milestone_index \<Rightarrow> tangle_state \<Rightarrow> outcome" where
  "requestOrCheck cachedBndl solidMsIndex bundleMsIndex s =
     (if bundleMsIndex > solidMsIndex then
        Returned (RequestMilestoneApprovees cachedBndl (Retain cachedBndl
          (emit (LogValidMilestone bundleMsIndex (GetMilestoneHash (GetBundle cachedBndl))) s)))
      else
        (let (pruningIdx, s1) = GetSnapshotInfoPruningIndex s in
         if bundleMsIndex < pruningIdx then
           (let p = SyncedTooFar bundleMsIndex (GetMilestoneHash (GetBundle cachedBndl)) pruningIdx
            in Panicked p (emit (LogPanic p) s1))
         else Returned s1))"

definition processValidMilestone :: "CachedBundle \<Rightarrow> tangle_state \<Rightarrow> outcome" where
  "processValidMilestone cachedBndl s =
     deferred (Release cachedBndl)
       (let s1 = TriggerReceivedNewMilestone cachedBndl s;
            (solidMsIndex, s2) = GetSolidMilestoneIndex s1;
            bundleMsIndex = GetMilestoneIndex (GetBundle cachedBndl);
            (latestMsIndex, s3) = GetLatestMilestoneIndex s2;
            s4 = updateLatest cachedBndl latestMsIndex bundleMsIndex s3;
            s5 = Submit bundleMsIndex False s4
        in requestOrCheck cachedBndl solidMsIndex bundleMsIndex s5)"

text \<open>A sequence of milestones handed to \<^verbatim>\<open>processValidMilestone\<close> one after the other;
  a panic ends the process, so the milestones after it are not processed.\<close>

fun processAll :: "CachedBundle list \<Rightarrow> tangle_state \<Rightarrow> outcome" where
  "processAll [] s = Returned s"
| "processAll (c # cs) s =
     (case processValidMilestone c s of
        Returned s' \<Rightarrow> processAll cs s'
      | Panicked p s' \<Rightarrow> Panicked p s')"

text \<open>Observations on an outcome.\<close>

fun final :: "outcome \<Rightarrow> tangle_state" where
  "final (Returned s) = s"
| "final (Panicked p s) = s"

fun halted :: "outcome \<Rightarrow> panic option" where
  "halted (Returned s) = None"
| "halted (Panicked p s) = Some p"

text \<open>The actions a run added to the trace of the state it started in.\<close>

definition performed :: "tangle_state \<Rightarrow> outcome \<Rightarrow> action list" where
  "performed s r = drop (length (trace s)) (trace (final r))"

text \<open>Readings of a trace that the statements below use: the requests to the gossip
  layer, the hand-overs of a reference to another party (an event's observers, the storage
  layer, the gossip layer), and the indexes \<^verbatim>\<open>SetLatestMilestone\<close> was called with.\<close>

fun isRequest :: "action \<Rightarrow> bool" where
  "isRequest (CallRequestMilestoneApprovees c) = True"
| "isRequest _ = False"

fun isTransfer :: "action \<Rightarrow> bool" where
  "isTransfer (ReceivedNewMilestone c) = True"
| "isTransfer (CallSetLatestMilestone c) = True"
| "isTransfer (LatestMilestoneChanged c) = True"
| "isTransfer (CallRequestMilestoneApprovees c) = True"
| "isTransfer _ = False"

text \<open>Every retain of the handle \<open>h\<close> is followed at once by a hand-over, and every
  hand-over follows a retain of \<open>h\<close>: one retain per hand-over, none without.\<close>

fun retainedTransfers :: "nat \<Rightarrow> action list \<Rightarrow> bool" where
  "retainedTransfers h [] = True"
| "retainedTransfers h [DoRetain h'] = False"
| "retainedTransfers h (DoRetain h' # a # as) = (h' = h \<and> isTransfer a \<and> retainedTransfers h as)"
| "retainedTransfers h (a # as) = (\<not> isTransfer a \<and> retainedTransfers h as)"

fun setLatestCalls :: "action list \<Rightarrow> milestone_index list" where
  "setLatestCalls [] = []"
| "setLatestCalls (CallSetLatestMilestone c # as) = GetMilestoneIndex (GetBundle c) # setLatestCalls as"
| "setLatestCalls (a # as) = setLatestCalls as"

text \<open>The steps of the block that updates the latest milestone: the call of
  \<^verbatim>\<open>SetLatestMilestone\<close>, the log line for its error, and the event.\<close>

fun isLatestStep :: "action \<Rightarrow> bool" where
  "isLatestStep (CallSetLatestMilestone c) = True"
| "isLatestStep (LogError e) = True"
| "isLatestStep (LatestMilestoneChanged c) = True"
| "isLatestStep _ = False"

text \<open>The actions of the two conditional blocks, written out per case; the lemma
  \<open>performed_processValidMilestone\<close> below derives them from the function.\<close>

definition latestActions :: "CachedBundle \<Rightarrow> tangle_state \<Rightarrow> action list" where
  "latestActions c s =
     (if latestMilestoneIndex s < GetMilestoneIndex (GetBundle c) then
        [DoRetain (handle c), CallSetLatestMilestone c]
        @ (case persistErr s (persistCalls s) of Some e \<Rightarrow> [LogError e] | None \<Rightarrow> [])
        @ [DoRetain (handle c), LatestMilestoneChanged c]
      else [])"

definition solidActions :: "CachedBundle \<Rightarrow> tangle_state \<Rightarrow> action list" where
  "solidActions c s =
     (if solidMilestoneIndex s < GetMilestoneIndex (GetBundle c) then
        [LogValidMilestone (GetMilestoneIndex (GetBundle c)) (GetMilestoneHash (GetBundle c)),
         DoRetain (handle c), CallRequestMilestoneApprovees c]
      else if GetMilestoneIndex (GetBundle c) < pruningIndex s then
        [ReadSnapshotInfo, LogPanic (SyncedTooFar (GetMilestoneIndex (GetBundle c))
           (GetMilestoneHash (GetBundle c)) (pruningIndex s))]
      else [ReadSnapshotInfo])"

text \<open>Concrete inputs for the examples: a node with the given solid, latest and pruning
  indexes, all reference counts at one, an empty trace and the given storage answers;
  and a milestone bundle with the given handle, index and hash.\<close>

definition node :: "milestone_index \<Rightarrow> milestone_index \<Rightarrow> milestone_index \<Rightarrow> (nat \<Rightarrow> string option) \<Rightarrow> tangle_state" where
  "node solid latest pruning answers =
     \<lparr>solidMilestoneIndex = solid, latestMilestoneIndex = latest, pruningIndex = pruning,
      refCount = (\<lambda>h. 1), persistErr = answers, persistCalls = 0, trace = []\<rparr>"

definition milestone :: "nat \<Rightarrow> milestone_index \<Rightarrow> string \<Rightarrow> CachedBundle" where
  "milestone h i hash = \<lparr>handle = h, GetBundle = \<lparr>GetMilestoneIndex = i, GetMilestoneHash = hash\<rparr>\<rparr>"


section \<open>Database garbage collection (package database)\<close>

text \<open>
  Instants and durations are integers (nanoseconds); \<^verbatim>\<open>time.Now()\<close> reads the node's
  clock, whose k-th reading is given by the state. \<open>zeroTime\<close> is the zero value of
  \<^verbatim>\<open>time.Time\<close>, which a struct literal leaves in a field it does not set. The discard
  ratio is a \<^verbatim>\<open>float64\<close> that the code only passes on; it is a real number here.
\<close>

type_synonym time = int
type_synonym duration = int

definition zeroTime :: time where
  "zeroTime = 0"

definition Sub :: "time \<Rightarrow> time \<Rightarrow> duration" where
  "Sub t u = t - u"

definition Millisecond :: duration where
  "Millisecond = 1000000"

text \<open>\<^verbatim>\<open>Duration.Truncate(m)\<close> rounds toward zero to a multiple of \<open>m\<close> (and returns
  \<open>d\<close> when \<open>m \<le> 0\<close>): \<^verbatim>\<open>d - d%m\<close> with Go's remainder, which has the sign of \<open>d\<close>.\<close>

definition goRem :: "int \<Rightarrow> int \<Rightarrow> int" where
  "goRem a b = sgn a * (\<bar>a\<bar> mod \<bar>b\<bar>)"

definition Truncate :: "duration \<Rightarrow> duration \<Rightarrow> duration" where
  "Truncate d m = (if m \<le> 0 then d else d - goRem d m)"

text \<open>An error of the storage engine: badger's \<^verbatim>\<open>ErrNoRewrite\<close> (``nothing to compact'')
  or any other error, with its message.\<close>

datatype gc_error = ErrNoRewrite | ErrOther string

record DatabaseCleanup =
  Start :: time
  End :: time

datatype db_msg =
    Running
  | Failed gc_error duration
  | NothingToCleanUp duration
  | Finished duration
  | RunningFull
  | FullFailed gc_error duration
  | FullFinished nat duration

datatype db_action =
    Lock
  | Unlock
  | ReadClock time
  | CleanupEvent DatabaseCleanup
  | RunValueLogGC real
  | RuntimeGC
  | LogInfo db_msg
  | LogWarn db_msg

text \<open>
  The state: the clock (its k-th reading and the number of readings taken), the storage
  engine (its answer to the k-th compaction call with a given discard ratio, \<open>None\<close> for
  \<^verbatim>\<open>nil\<close>, and the number of calls made), the engine's default discard ratio, and the
  actions performed so far, oldest first.
\<close>

record db_state =
  clock :: "nat \<Rightarrow> time"
  clockReads :: nat
  engine :: "nat \<Rightarrow> real \<Rightarrow> gc_error option"
  engineCalls :: nat
  defaultRatio :: real
  dbTrace :: "db_action list"

definition dbEmit :: "db_action \<Rightarrow> db_state \<Rightarrow> db_state" where
  "dbEmit a s = s\<lparr>dbTrace := dbTrace s @ [a]\<rparr>"

definition timeNow :: "db_state \<Rightarrow> time \<times> db_state" where
  "timeNow s =
     (let t = clock s (clockReads s)
      in (t, dbEmit (ReadClock t) (s\<lparr>clockReads := clockReads s + 1\<rparr>)))"

text \<open>\<^verbatim>\<open>time.Since(ts)\<close> is \<^verbatim>\<open>time.Now().Sub(ts)\<close>.\<close>

definition Since :: "time \<Rightarrow> db_state \<Rightarrow> duration \<times> db_state" where
  "Since ts s = (let (t, s1) = timeNow s in (Sub t ts, s1))"

definition TriggerDatabaseCleanup :: "DatabaseCleanup \<Rightarrow> db_state \<Rightarrow> db_state" where
  "TriggerDatabaseCleanup ev s = dbEmit (CleanupEvent ev) s"

text \<open>
  Modelled from the spec: \<^verbatim>\<open>database.CleanupHornetBadgerInstance\<close> is not part of the
  sources. The spec: ``invoke the engine's underlying compaction primitive with a
  discard-ratio parameter (default threshold if unspecified)''. The variadic argument is
  a list; the first ratio given is used, the engine's default when none is given.
\<close>

definition CleanupHornetBadgerInstance :: "real list \<Rightarrow> db_state \<Rightarrow> gc_error option \<times> db_state" where
  "CleanupHornetBadgerInstance discardRatio s =
     (let ratio = (case discardRatio of [] \<Rightarrow> defaultRatio s | r # _ \<Rightarrow> r);
          err = engine s (engineCalls s) ratio
      in (err, dbEmit (RunValueLogGC ratio) (s\<lparr>engineCalls := engineCalls s + 1\<rparr>)))"

definition runGarbageCollectionWithoutLocking :: "real list \<Rightarrow> db_state \<Rightarrow> (duration \<times> gc_error option) \<times> db_state" where
  "runGarbageCollectionWithoutLocking discardRatio s =
     (let (start, s1) = timeNow s;
          s2 = TriggerDatabaseCleanup \<lparr>Start = start, End = zeroTime\<rparr> s1;
          (err, s3) = CleanupHornetBadgerInstance discardRatio s2;
          (endT, s4) = timeNow s3;
          s5 = TriggerDatabaseCleanup \<lparr>Start = start, End = endT\<rparr> s4;
          s6 = dbEmit RuntimeGC s5
      in ((Sub endT start, err), s6))"

text \<open>\<^verbatim>\<open>RunGarbageCollection\<close>: the lock is taken first and released by the deferred
  \<^verbatim>\<open>Unlock\<close> on each of the three returns.\<close>

definition RunGarbageCollection :: "db_state \<Rightarrow> db_state" where
  "RunGarbageCollection s =
     (let s1 = dbEmit Lock s;
          s2 = dbEmit (LogInfo Running) s1;
          ((duration, err), s3) = runGarbageCollectionWithoutLocking [] s2;
          s4 = (case err of
                  Some e \<Rightarrow>
                    if e \<noteq> ErrNoRewrite
                    then dbEmit (LogWarn (Failed e (Truncate duration Millisecond))) s3
                    else dbEmit (LogInfo (NothingToCleanUp (Truncate duration Millisecond))) s3
                | None \<Rightarrow> dbEmit (LogInfo (Finished (Truncate duration Millisecond))) s3)
      in dbEmit Unlock s4)"

text \<open>
  The loop \<^verbatim>\<open>for err == nil { ... }\<close> of \<^verbatim>\<open>RunFullGarbageCollection\<close>, with its
  variables \<open>err\<close> and \<open>cleanups\<close>. It leaves either by the \<^verbatim>\<open>return\<close> inside
  the body (after the warning) or because the condition fails (after \<^verbatim>\<open>continue\<close>);
  when the engine never reports an error it does not leave at all, and the value is
  \<open>None\<close>.
\<close>

datatype loop_exit = EarlyReturn db_state | LoopEnd nat db_state

partial_function (option) fullLoop :: "real list \<Rightarrow> time \<Rightarrow> gc_error option \<Rightarrow> nat \<Rightarrow> db_state \<Rightarrow> loop_exit option" where
  "fullLoop discardRatio ts err cleanups s =
     (if err = None then
        (case runGarbageCollectionWithoutLocking discardRatio s of
           ((d, err'), s1) \<Rightarrow>
             (case err' of
                Some e \<Rightarrow>
                  if e \<noteq> ErrNoRewrite
                  then (let (took, s2) = Since ts s1
                        in Some (EarlyReturn (dbEmit (LogWarn (FullFailed e (Truncate took Millisecond))) s2)))
                  else fullLoop discardRatio ts err' cleanups s1
              | None \<Rightarrow> fullLoop discardRatio ts err' (cleanups + 1) s1))
      else Some (LoopEnd cleanups s))"

definition RunFullGarbageCollection :: "real list \<Rightarrow> db_state \<Rightarrow> db_state option" where
  "RunFullGarbageCollection discardRatio s =
     (let s1 = dbEmit Lock s;
          s2 = dbEmit (LogInfo RunningFull) s1;
          (ts, s3) = timeNow s2
      in case fullLoop discardRatio ts None 0 s3 of
           None \<Rightarrow> None
         | Some (EarlyReturn s4) \<Rightarrow> Some (dbEmit Unlock s4)
         | Some (LoopEnd cleanups s4) \<Rightarrow>
             (let (took, s5) = Since ts s4
              in Some (dbEmit Unlock
                   (dbEmit (LogInfo (FullFinished cleanups (Truncate took Millisecond))) s5))))"

text \<open>The actions a call added to the trace of the state it started in.\<close>

definition dbPerformed :: "db_state \<Rightarrow> db_state \<Rightarrow> db_action list" where
  "dbPerformed s s' = drop (length (dbTrace s)) (dbTrace s')"

fun isLog :: "db_action \<Rightarrow> bool" where
  "isLog (LogInfo m) = True"
| "isLog (LogWarn m) = True"
| "isLog _ = False"

fun isCleanupEvent :: "db_action \<Rightarrow> bool" where
  "isCleanupEvent (CleanupEvent ev) = True"
| "isCleanupEvent _ = False"

fun isCompaction :: "db_action \<Rightarrow> bool" where
  "isCompaction (RunValueLogGC r) = True"
| "isCompaction _ = False"

text \<open>The ratio a pass hands to the engine.\<close>

definition ratioOf :: "real list \<Rightarrow> db_state \<Rightarrow> real" where
  "ratioOf discardRatio s = (case discardRatio of [] \<Rightarrow> defaultRatio s | r # _ \<Rightarrow> r)"

text \<open>A concrete database for the examples: the clock's k-th reading is \<open>k\<close> seconds
  and a half millisecond each, the default discard ratio is one half.\<close>

definition db :: "(nat \<Rightarrow> real \<Rightarrow> gc_error option) \<Rightarrow> db_state" where
  "db answers =
     \<lparr>clock = (\<lambda>k. 1000500000 * int k), clockReads = 0, engine = answers, engineCalls = 0,
      defaultRatio = 1 / 2, dbTrace = []\<rparr>"

text \<open>The state after \<open>k\<close> passes in a row, the actions of one pass written out, and the
  state in which the loop of \<^verbatim>\<open>RunFullGarbageCollection\<close> starts; the lemmas below derive
  them from the functions.\<close>

fun afterPasses :: "real list \<Rightarrow> nat \<Rightarrow> db_state \<Rightarrow> db_state" where
  "afterPasses discardRatio 0 s = s"
| "afterPasses discardRatio (Suc k) s =
     afterPasses discardRatio k (snd (runGarbageCollectionWithoutLocking discardRatio s))"

definition passActions :: "real list \<Rightarrow> db_state \<Rightarrow> db_action list" where
  "passActions discardRatio s =
     [ReadClock (clock s (clockReads s)),
      CleanupEvent \<lparr>Start = clock s (clockReads s), End = zeroTime\<rparr>,
      RunValueLogGC (ratioOf discardRatio s),
      ReadClock (clock s (clockReads s + 1)),
      CleanupEvent \<lparr>Start = clock s (clockReads s), End = clock s (clockReads s + 1)\<rparr>,
      RuntimeGC]"

definition started :: "db_state \<Rightarrow> db_state" where
  "started s = s\<lparr>clockReads := clockReads s + 1,
                 dbTrace := dbTrace s @ [Lock, LogInfo RunningFull, ReadClock (clock s (clockReads s))]\<rparr>"

section \<open>The garbage-collection lock between goroutines\<close>

text \<open>
  \<^verbatim>\<open>garbageCollectionLock\<close> is one mutex for the whole process. A goroutine that calls
  \<^verbatim>\<open>RunGarbageCollection\<close> or \<^verbatim>\<open>RunFullGarbageCollection\<close> performs the actions of that
  call in order; the goroutines are interleaved in any order. A configuration is the
  goroutine that locked the mutex (\<open>None\<close> when it is free) and, for each goroutine, the
  actions it still has to perform. \<^verbatim>\<open>Lock\<close> takes the free mutex and has no step while
  the mutex is locked; \<^verbatim>\<open>Unlock\<close> frees the locked mutex; every other action is a step
  of its own.
\<close>

text \<open>A list of actions without \<^verbatim>\<open>Lock\<close> and \<^verbatim>\<open>Unlock\<close>; the rest of a call that
  holds the lock (actions without lock operations, then the one \<^verbatim>\<open>Unlock\<close>); and a whole
  call (\<^verbatim>\<open>Lock\<close>, then such a rest).\<close>

fun lockFree :: "db_action list \<Rightarrow> bool" where
  "lockFree [] = True"
| "lockFree (Lock # as) = False"
| "lockFree (Unlock # as) = False"
| "lockFree (a # as) = lockFree as"

definition inside :: "db_action list \<Rightarrow> bool" where
  "inside r \<longleftrightarrow> r \<noteq> [] \<and> last r = Unlock \<and> lockFree (butlast r)"

definition criticalSection :: "db_action list \<Rightarrow> bool" where
  "criticalSection p \<longleftrightarrow> (case p of Lock # rest \<Rightarrow> inside rest | _ \<Rightarrow> False)"

type_synonym config = "nat option \<times> (nat \<Rightarrow> db_action list)"

inductive step :: "nat \<Rightarrow> config \<Rightarrow> config \<Rightarrow> bool" where
  acquire: "ts i = Lock # rest \<Longrightarrow> step i (None, ts) (Some i, ts(i := rest))"
| release: "ts i = Unlock # rest \<Longrightarrow> step i (Some j, ts) (None, ts(i := rest))"
| other: "ts i = a # rest \<Longrightarrow> a \<noteq> Lock \<Longrightarrow> a \<noteq> Unlock \<Longrightarrow> step i (m, ts) (m, ts(i := rest))"

inductive reachable :: "config \<Rightarrow> config \<Rightarrow> bool" where
  reach_start: "reachable c c"
| reach_step: "reachable c c' \<Longrightarrow> step i c' c'' \<Longrightarrow> reachable c c''"

text \<open>The invariant of the interleaving: every goroutine has finished, has not started,
  or is inside its call, and the goroutine inside its call is the one that locked.\<close>

definition lockInv :: "config \<Rightarrow> bool" where
  "lockInv c \<longleftrightarrow>
     (\<forall>i. (snd c i = [] \<or> criticalSection (snd c i) \<or> inside (snd c i))
          \<and> (inside (snd c i) \<longleftrightarrow> fst c = Some i))"

text \<open>Two goroutines for the example: goroutine 0 runs a full collection on a database
  whose engine completes two passes, goroutine 1 runs a single collection.\<close>

definition exampleThreads :: "nat \<Rightarrow> db_action list" where
  "exampleThreads i =
     (if i = 0 then
        dbPerformed (db (\<lambda>k r. if k < 2 then None else Some ErrNoRewrite))
          (the (RunFullGarbageCollection [] (db (\<lambda>k r. if k < 2 then None else Some ErrNoRewrite))))
      else if i = 1 then
        dbPerformed (db (\<lambda>k r. None)) (RunGarbageCollection (db (\<lambda>k r. None)))
      else [])"


section \<open>Properties of milestone processing\<close>

lemmas prim_defs = emit_def Retain_def Release_def GetSolidMilestoneIndex_def
  GetLatestMilestoneIndex_def GetSnapshotInfoPruningIndex_def TriggerReceivedNewMilestone_def
  TriggerLatestMilestoneChanged_def SetLatestMilestone_def RequestMilestoneApprovees_def Submit_def

lemmas body_defs = processValidMilestone_def updateLatest_def requestOrCheck_def

text \<open>What one call does, in full: the actions it performs, whether it halts, and what
  it leaves in the state.\<close>

lemma performed_processValidMilestone:
  "performed s (processValidMilestone c s) =
     [DoRetain (handle c), ReceivedNewMilestone c, ReadSolidMilestoneIndex, ReadLatestMilestoneIndex]
     @ latestActions c s
     @ [SubmitSolidificationTask (GetMilestoneIndex (GetBundle c)) False]
     @ solidActions c s
     @ [DoRelease (handle c)]"
  by (simp add: body_defs performed_def prim_defs latestActions_def solidActions_def Let_def
      split: option.splits)

lemma trace_processValidMilestone:
  "trace (final (processValidMilestone c s)) = trace s @ performed s (processValidMilestone c s)"
  unfolding performed_processValidMilestone
  by (simp add: body_defs prim_defs latestActions_def solidActions_def Let_def split: option.splits)

lemma halted_processValidMilestone:
  "halted (processValidMilestone c s) =
     (if GetMilestoneIndex (GetBundle c) \<le> solidMilestoneIndex s
         \<and> GetMilestoneIndex (GetBundle c) < pruningIndex s
      then Some (SyncedTooFar (GetMilestoneIndex (GetBundle c)) (GetMilestoneHash (GetBundle c))
                   (pruningIndex s))
      else None)"
  by (simp add: body_defs prim_defs Let_def split: option.splits)

lemma latest_processValidMilestone:
  "latestMilestoneIndex (final (processValidMilestone c s)) =
     (if latestMilestoneIndex s < GetMilestoneIndex (GetBundle c) \<and> persistErr s (persistCalls s) = None
      then GetMilestoneIndex (GetBundle c) else latestMilestoneIndex s)"
  by (simp add: body_defs prim_defs Let_def split: option.splits)

lemma persistErr_processValidMilestone:
  "persistErr (final (processValidMilestone c s)) = persistErr s"
  by (simp add: body_defs prim_defs Let_def split: option.splits)

lemma refCount_processValidMilestone:
  "refCount (final (processValidMilestone c s)) =
     (refCount s)(handle c := refCount s (handle c) - 1
        + int (length (filter isTransfer (performed s (processValidMilestone c s)))))"
  unfolding performed_processValidMilestone
  by (simp add: body_defs prim_defs latestActions_def solidActions_def Let_def fun_eq_iff
      split: option.splits)

lemmas example_defs = node_def milestone_def latestActions_def solidActions_def

text \<open>
  Claim C1. \<^verbatim>\<open>processValidMilestone\<close> halts if and only if the milestone's index is at
  most the solid index and below the pruning index; the diagnostic of the halt names the
  index, the hash and the pruning index, and it is logged on exactly that path. The
  snapshot info (the pruning index) is read if and only if the index is at most the solid
  index, so it is not consulted for an index above the solid index.
\<close>

theorem processValidMilestone_halts_iff:
  "(let idx = GetMilestoneIndex (GetBundle c);
        r = processValidMilestone c s;
        p = SyncedTooFar idx (GetMilestoneHash (GetBundle c)) (pruningIndex s)
    in halted r = (if idx \<le> solidMilestoneIndex s \<and> idx < pruningIndex s then Some p else None)
       \<and> (LogPanic p \<in> set (performed s r) \<longleftrightarrow> idx \<le> solidMilestoneIndex s \<and> idx < pruningIndex s)
       \<and> (ReadSnapshotInfo \<in> set (performed s r) \<longleftrightarrow> idx \<le> solidMilestoneIndex s))"
  by (simp add: Let_def halted_processValidMilestone performed_processValidMilestone
      latestActions_def solidActions_def split: option.splits)

text \<open>The example of the claim: index 5 with solid index 50 and pruning index 10 halts;
  index 100 on the same node does not, and the snapshot info is not read.\<close>

theorem processValidMilestone_halts_iff_witness:
  "halted (processValidMilestone (milestone 1 5 ''M5'') (node 50 60 10 (\<lambda>k. None)))
     = Some (SyncedTooFar 5 ''M5'' 10)
   \<and> halted (processValidMilestone (milestone 2 100 ''M100'') (node 50 60 10 (\<lambda>k. None))) = None
   \<and> ReadSnapshotInfo \<notin> set (performed (node 50 60 10 (\<lambda>k. None))
        (processValidMilestone (milestone 2 100 ''M100'') (node 50 60 10 (\<lambda>k. None))))"
  using processValidMilestone_halts_iff [of "milestone 1 5 ''M5''" "node 50 60 10 (\<lambda>k. None)"]
    processValidMilestone_halts_iff [of "milestone 2 100 ''M100''" "node 50 60 10 (\<lambda>k. None)"]
  by (simp add: Let_def node_def milestone_def)

text \<open>
  Claim C6. The call issues exactly one request for the milestone's approvees (trunk and
  branch) when the index is above the solid index, and none otherwise; it returns without
  halting exactly when the index is above the solid index or at least the pruning index.
  So an index at or below the solid index and at or above the pruning index neither
  halts nor requests.
\<close>

theorem processValidMilestone_request_iff:
  "filter isRequest (performed s (processValidMilestone c s)) =
     (if solidMilestoneIndex s < GetMilestoneIndex (GetBundle c)
      then [CallRequestMilestoneApprovees c] else [])
   \<and> (halted (processValidMilestone c s) = None \<longleftrightarrow>
        solidMilestoneIndex s < GetMilestoneIndex (GetBundle c)
        \<or> pruningIndex s \<le> GetMilestoneIndex (GetBundle c))"
  by (auto simp: halted_processValidMilestone performed_processValidMilestone
      latestActions_def solidActions_def split: option.splits)

text \<open>The examples of the spec: index 20 with solid index 50 and pruning index 10 takes
  the branch without a request and does not halt; index 100 requests once.\<close>

theorem processValidMilestone_request_iff_witness:
  "filter isRequest (performed (node 50 60 10 (\<lambda>k. None))
      (processValidMilestone (milestone 1 20 ''M20'') (node 50 60 10 (\<lambda>k. None)))) = []
   \<and> halted (processValidMilestone (milestone 1 20 ''M20'') (node 50 60 10 (\<lambda>k. None))) = None
   \<and> filter isRequest (performed (node 50 60 10 (\<lambda>k. None))
      (processValidMilestone (milestone 2 100 ''M100'') (node 50 60 10 (\<lambda>k. None))))
      = [CallRequestMilestoneApprovees (milestone 2 100 ''M100'')]"
  using processValidMilestone_request_iff [of "node 50 60 10 (\<lambda>k. None)" "milestone 1 20 ''M20''"]
    processValidMilestone_request_iff [of "node 50 60 10 (\<lambda>k. None)" "milestone 2 100 ''M100''"]
  by (simp add: node_def milestone_def)

text \<open>
  Claim C7. On every path through the call, the halting one included, the actions on
  the handle are balanced: the call performs at least one action, its last action is the
  deferred release, which is the only release; every retain is followed at once by a
  hand-over of that reference (to the observers of an event, to
  \<^verbatim>\<open>SetLatestMilestone\<close>, to the request) and every hand-over follows a retain; and the
  reference count ends one below its start plus the number of references handed over.
\<close>

theorem processValidMilestone_references_balanced:
  "(let r = processValidMilestone c s; acts = performed s r; h = handle c
    in acts \<noteq> [] \<and> last acts = DoRelease h \<and> count_list acts (DoRelease h) = 1
       \<and> retainedTransfers h acts
       \<and> refCount (final r) =
           (refCount s)(h := refCount s h - 1 + int (length (filter isTransfer acts))))"
  unfolding Let_def refCount_processValidMilestone [symmetric]
  by (simp add: performed_processValidMilestone latestActions_def solidActions_def
      split: option.splits)

text \<open>The halting path (index 5, solid index 50, pruning index 10): the release is the
  last action, after the panic was logged, and the count is back where it started, the
  one reference handed to the observers of the first event standing against the one
  released.\<close>

theorem processValidMilestone_references_balanced_witness:
  "performed (node 50 60 10 (\<lambda>k. None))
      (processValidMilestone (milestone 1 5 ''M5'') (node 50 60 10 (\<lambda>k. None)))
     = [DoRetain 1, ReceivedNewMilestone (milestone 1 5 ''M5''), ReadSolidMilestoneIndex,
        ReadLatestMilestoneIndex, SubmitSolidificationTask 5 False, ReadSnapshotInfo,
        LogPanic (SyncedTooFar 5 ''M5'' 10), DoRelease 1]
   \<and> retainedTransfers 1 (performed (node 50 60 10 (\<lambda>k. None))
        (processValidMilestone (milestone 1 5 ''M5'') (node 50 60 10 (\<lambda>k. None))))
   \<and> refCount (final (processValidMilestone (milestone 1 5 ''M5'') (node 50 60 10 (\<lambda>k. None)))) 1 = 1"
  using processValidMilestone_references_balanced [of "milestone 1 5 ''M5''" "node 50 60 10 (\<lambda>k. None)"]
  by (simp add: Let_def performed_processValidMilestone example_defs)

text \<open>
  Claim C3, as the code has it. When the index is above the latest index, the call runs
  \<^verbatim>\<open>SetLatestMilestone\<close>, logs its error if there is one, and then triggers the
  event \<^verbatim>\<open>LatestMilestoneChanged\<close>, after a failure as after a success; when the index
  is not above the latest index it does none of the three. After the block the call goes
  on in every case: it submits the solidification task, and whether it halts depends on
  the indexes alone, never on the error of the storage layer.
\<close>

theorem processValidMilestone_latest_block:
  "(let idx = GetMilestoneIndex (GetBundle c); r = processValidMilestone c s; acts = performed s r
    in filter isLatestStep acts =
         (if latestMilestoneIndex s < idx
          then CallSetLatestMilestone c
               # (case persistErr s (persistCalls s) of Some e \<Rightarrow> [LogError e] | None \<Rightarrow> [])
               @ [LatestMilestoneChanged c]
          else [])
       \<and> (LatestMilestoneChanged c \<in> set acts \<longleftrightarrow> latestMilestoneIndex s < idx)
       \<and> SubmitSolidificationTask idx False \<in> set acts
       \<and> halted r =
           (if idx \<le> solidMilestoneIndex s \<and> idx < pruningIndex s
            then Some (SyncedTooFar idx (GetMilestoneHash (GetBundle c)) (pruningIndex s))
            else None))"
  by (simp add: Let_def halted_processValidMilestone performed_processValidMilestone
      latestActions_def solidActions_def split: option.splits)

text \<open>A milestone with index 5 on a node whose latest index is 0 and whose storage layer
  fails: the error is logged, the event follows, the call returns.\<close>

theorem processValidMilestone_latest_block_witness:
  "filter isLatestStep (performed (node 0 0 0 (\<lambda>k. Some ''write failed''))
      (processValidMilestone (milestone 1 5 ''M5'') (node 0 0 0 (\<lambda>k. Some ''write failed''))))
     = [CallSetLatestMilestone (milestone 1 5 ''M5''), LogError ''write failed'',
        LatestMilestoneChanged (milestone 1 5 ''M5'')]
   \<and> halted (processValidMilestone (milestone 1 5 ''M5'') (node 0 0 0 (\<lambda>k. Some ''write failed''))) = None"
  using processValidMilestone_latest_block [of "milestone 1 5 ''M5''" "node 0 0 0 (\<lambda>k. Some ''write failed'')"]
  by (simp add: Let_def node_def milestone_def)

text \<open>Claim C3 as stated fails: on the failure path the event is published.\<close>

theorem latestMilestoneChanged_after_failure_counterexample:
  "persistErr (node 0 0 0 (\<lambda>k. Some ''write failed'')) (persistCalls (node 0 0 0 (\<lambda>k. Some ''write failed'')))
     = Some ''write failed''
   \<and> LogError ''write failed'' \<in> set (performed (node 0 0 0 (\<lambda>k. Some ''write failed''))
      (processValidMilestone (milestone 1 5 ''M5'') (node 0 0 0 (\<lambda>k. Some ''write failed''))))
   \<and> LatestMilestoneChanged (milestone 1 5 ''M5'') \<in> set (performed (node 0 0 0 (\<lambda>k. Some ''write failed''))
      (processValidMilestone (milestone 1 5 ''M5'') (node 0 0 0 (\<lambda>k. Some ''write failed''))))"
  by (simp add: performed_processValidMilestone example_defs)

lemma setLatestCalls_append: "setLatestCalls (xs @ ys) = setLatestCalls xs @ setLatestCalls ys"
  by (induction xs rule: setLatestCalls.induct) simp_all

lemma remdups_adj_sorted_Cons:
  "sorted (i # xs) \<Longrightarrow> remdups_adj (i # xs) = i # remdups_adj (filter (\<lambda>j. i < j) xs)"
  for i :: nat
proof (induction xs)
  case Nil
  then show ?case by simp
next
  case (Cons j xs)
  show ?case
  proof (cases "j = i")
    case True
    with Cons show ?thesis by simp
  next
    case False
    with Cons.prems have lt: "i < j" and all: "\<forall>k\<in>set xs. j \<le> k" by auto
    then have "filter (\<lambda>k. i < k) xs = xs" by (auto simp: filter_id_conv)
    with lt False show ?thesis by simp
  qed
qed

lemma remdups_adj_sorted_distinct: "sorted xs \<Longrightarrow> distinct (remdups_adj xs)"
  for xs :: "nat list"
proof (induction xs rule: remdups_adj.induct)
  case (3 x y xs)
  then show ?case by (cases "x = y") auto
qed simp_all

text \<open>A run over a sequence that returns: one step, then the rest.\<close>

lemma processAll_Cons_Returned:
  assumes "processAll (c # cs) s = Returned s'"
  obtains s1 where "final (processValidMilestone c s) = s1" "processAll cs s1 = Returned s'"
  using assms by (auto split: outcome.splits)

lemma processAll_trace:
  "processAll cs s = Returned s' \<Longrightarrow> \<exists>as. trace s' = trace s @ as"
proof (induction cs arbitrary: s)
  case Nil
  then show ?case by simp
next
  case (Cons c cs)
  from Cons.prems obtain s1 where s1: "final (processValidMilestone c s) = s1"
    and rest: "processAll cs s1 = Returned s'" by (rule processAll_Cons_Returned)
  from Cons.IH[OF rest] obtain as where "trace s' = trace s1 @ as" by blast
  with trace_processValidMilestone[of c s] s1 show ?case by simp
qed

lemma processAll_latest:
  assumes "processAll cs s = Returned s'" and "\<forall>k. persistErr s k = None"
  shows "latestMilestoneIndex s' =
           fold max (map (\<lambda>c. GetMilestoneIndex (GetBundle c)) cs) (latestMilestoneIndex s)"
  using assms
proof (induction cs arbitrary: s)
  case Nil
  then show ?case by simp
next
  case (Cons c cs)
  from Cons.prems(1) obtain s1 where s1: "final (processValidMilestone c s) = s1"
    and rest: "processAll cs s1 = Returned s'" by (rule processAll_Cons_Returned)
  have ok1: "\<forall>k. persistErr s1 k = None"
    using persistErr_processValidMilestone[of c s] Cons.prems(2) s1 by simp
  have l1: "latestMilestoneIndex s1 = max (latestMilestoneIndex s) (GetMilestoneIndex (GetBundle c))"
    using latest_processValidMilestone[of c s] Cons.prems(2) s1 by (simp add: max_def)
  from Cons.IH[OF rest ok1] l1 show ?case
    by (simp add: max.commute)
qed

lemma processAll_calls:
  assumes "processAll cs s = Returned s'" and "\<forall>k. persistErr s k = None"
    and "sorted (map (\<lambda>c. GetMilestoneIndex (GetBundle c)) cs)"
  shows "setLatestCalls (trace s') = setLatestCalls (trace s)
           @ remdups_adj (filter (\<lambda>i. latestMilestoneIndex s < i)
               (map (\<lambda>c. GetMilestoneIndex (GetBundle c)) cs))"
  using assms
proof (induction cs arbitrary: s)
  case Nil
  then show ?case by simp
next
  case (Cons c cs)
  let ?i = "GetMilestoneIndex (GetBundle c)"
  let ?is = "map (\<lambda>c. GetMilestoneIndex (GetBundle c)) cs"
  from Cons.prems(1) obtain s1 where s1: "final (processValidMilestone c s) = s1"
    and rest: "processAll cs s1 = Returned s'" by (rule processAll_Cons_Returned)
  have ok1: "\<forall>k. persistErr s1 k = None"
    using persistErr_processValidMilestone[of c s] Cons.prems(2) s1 by simp
  have l1: "latestMilestoneIndex s1 = max (latestMilestoneIndex s) ?i"
    using latest_processValidMilestone[of c s] Cons.prems(2) s1 by (simp add: max_def)
  have t1: "setLatestCalls (trace s1) =
      setLatestCalls (trace s) @ (if latestMilestoneIndex s < ?i then [?i] else [])"
    using trace_processValidMilestone[of c s] s1 Cons.prems(2)
    by (simp add: performed_processValidMilestone setLatestCalls_append latestActions_def
        solidActions_def)
  from Cons.prems(3) have sorted_rest: "sorted ?is" and ge: "\<forall>j\<in>set ?is. ?i \<le> j" by simp_all
  have ih: "setLatestCalls (trace s') =
      setLatestCalls (trace s1) @ remdups_adj (filter (\<lambda>j. latestMilestoneIndex s1 < j) ?is)"
    by (rule Cons.IH[OF rest ok1 sorted_rest])
  show ?case
  proof (cases "latestMilestoneIndex s < ?i")
    case True
    with ge have "filter (\<lambda>j. latestMilestoneIndex s < j) ?is = ?is"
      by (auto simp: filter_id_conv)
    moreover have "remdups_adj (?i # ?is) = ?i # remdups_adj (filter (\<lambda>j. ?i < j) ?is)"
      using Cons.prems(3) by (intro remdups_adj_sorted_Cons) simp
    moreover from True have "max (latestMilestoneIndex s) ?i = ?i" by simp
    ultimately show ?thesis using ih t1 l1 True by simp
  next
    case False
    then have "max (latestMilestoneIndex s) ?i = latestMilestoneIndex s" by simp
    with ih t1 l1 False show ?thesis by simp
  qed
qed

text \<open>
  Claim C2, as the code has it. Take a sequence of milestones in increasing index order
  (equal indexes allowed) that is processed to its end, no milestone halting the node,
  on a node whose storage layer accepts every \<^verbatim>\<open>SetLatestMilestone\<close>. Afterwards the
  latest index is the maximum of its value before and the indexes of the sequence; and
  \<^verbatim>\<open>SetLatestMilestone\<close> has run exactly once for each distinct index of the sequence
  above the latest index before, and for no other. In any state, and whatever the
  storage layer answers, a milestone whose index is not above the latest index does not
  run \<^verbatim>\<open>SetLatestMilestone\<close> and leaves the latest index as it is.
\<close>

theorem processAll_latest_is_max:
  assumes "sorted (map (\<lambda>c. GetMilestoneIndex (GetBundle c)) cs)"
    and "\<forall>k. persistErr s k = None"
    and "processAll cs s = Returned s'"
  shows "latestMilestoneIndex s' =
           Max (insert (latestMilestoneIndex s) (set (map (\<lambda>c. GetMilestoneIndex (GetBundle c)) cs)))
       \<and> distinct (setLatestCalls (performed s (Returned s')))
       \<and> set (setLatestCalls (performed s (Returned s'))) =
           {i \<in> set (map (\<lambda>c. GetMilestoneIndex (GetBundle c)) cs). latestMilestoneIndex s < i}
       \<and> (GetMilestoneIndex (GetBundle c) \<le> latestMilestoneIndex t \<longrightarrow>
            setLatestCalls (performed t (processValidMilestone c t)) = []
            \<and> latestMilestoneIndex (final (processValidMilestone c t)) = latestMilestoneIndex t)"
proof -
  let ?is = "map (\<lambda>c. GetMilestoneIndex (GetBundle c)) cs"
  have "latestMilestoneIndex s' = fold max ?is (latestMilestoneIndex s)"
    by (rule processAll_latest[OF assms(3,2)])
  also have "\<dots> = Max (insert (latestMilestoneIndex s) (set ?is))"
    using Max.set_eq_fold[of "latestMilestoneIndex s" ?is] by simp
  finally have a: "latestMilestoneIndex s' = Max (insert (latestMilestoneIndex s) (set ?is))" .
  from processAll_trace[OF assms(3)] obtain as where as: "trace s' = trace s @ as" by blast
  then have p: "performed s (Returned s') = as" by (simp add: performed_def)
  have "setLatestCalls (trace s') = setLatestCalls (trace s)
           @ remdups_adj (filter (\<lambda>i. latestMilestoneIndex s < i) ?is)"
    by (rule processAll_calls[OF assms(3,2,1)])
  with as have calls: "setLatestCalls as = remdups_adj (filter (\<lambda>i. latestMilestoneIndex s < i) ?is)"
    by (simp add: setLatestCalls_append)
  have b: "distinct (setLatestCalls (performed s (Returned s')))"
    unfolding p calls using assms(1) by (intro remdups_adj_sorted_distinct sorted_wrt_filter)
  have c: "set (setLatestCalls (performed s (Returned s'))) = {i \<in> set ?is. latestMilestoneIndex s < i}"
    unfolding p calls by auto
  have d: "GetMilestoneIndex (GetBundle c) \<le> latestMilestoneIndex t \<longrightarrow>
            setLatestCalls (performed t (processValidMilestone c t)) = []
            \<and> latestMilestoneIndex (final (processValidMilestone c t)) = latestMilestoneIndex t"
    by (simp add: performed_processValidMilestone latest_processValidMilestone
        setLatestCalls_append latestActions_def solidActions_def)
  from a b c d show ?thesis by blast
qed

text \<open>Indexes 3, 5, 5, 8 on a node whose latest index is 4: the latest index ends at 8,
  and \<^verbatim>\<open>SetLatestMilestone\<close> ran for 5 and for 8, once each.\<close>

theorem processAll_latest_is_max_witness:
  "latestMilestoneIndex (final (processAll
       [milestone 1 3 ''M3'', milestone 2 5 ''M5'', milestone 3 5 ''M5'', milestone 4 8 ''M8'']
       (node 0 4 0 (\<lambda>k. None)))) = 8
   \<and> setLatestCalls (performed (node 0 4 0 (\<lambda>k. None)) (processAll
       [milestone 1 3 ''M3'', milestone 2 5 ''M5'', milestone 3 5 ''M5'', milestone 4 8 ''M8'']
       (node 0 4 0 (\<lambda>k. None)))) = [5, 8]"
  using processAll_latest_is_max [of
      "[milestone 1 3 ''M3'', milestone 2 5 ''M5'', milestone 3 5 ''M5'', milestone 4 8 ''M8'']"
      "node 0 4 0 (\<lambda>k. None)"
      "final (processAll
         [milestone 1 3 ''M3'', milestone 2 5 ''M5'', milestone 3 5 ''M5'', milestone 4 8 ''M8'']
         (node 0 4 0 (\<lambda>k. None)))"]
  by (simp add: node_def milestone_def body_defs prim_defs performed_def Let_def)

text \<open>Claim C2 as stated fails when the storage layer rejects the milestones: indexes 5
  and 7 are processed in order, the node does not halt, and the latest index stays 0.\<close>

theorem latest_not_max_counterexample:
  "sorted (map (\<lambda>c. GetMilestoneIndex (GetBundle c)) [milestone 1 5 ''M5'', milestone 2 7 ''M7''])
   \<and> halted (processAll [milestone 1 5 ''M5'', milestone 2 7 ''M7''] (node 0 0 0 (\<lambda>k. Some ''write failed''))) = None
   \<and> latestMilestoneIndex (final (processAll [milestone 1 5 ''M5'', milestone 2 7 ''M7'']
        (node 0 0 0 (\<lambda>k. Some ''write failed'')))) = 0
   \<and> latestMilestoneIndex (final (processAll [milestone 1 5 ''M5'', milestone 2 7 ''M7'']
        (node 0 0 0 (\<lambda>k. Some ''write failed''))))
       \<noteq> Max (set (map (\<lambda>c. GetMilestoneIndex (GetBundle c)) [milestone 1 5 ''M5'', milestone 2 7 ''M7'']))
   \<and> Max (set (map (\<lambda>c. GetMilestoneIndex (GetBundle c)) [milestone 1 5 ''M5'', milestone 2 7 ''M7''])) = 7"
  by (simp add: node_def milestone_def body_defs prim_defs Let_def)

section \<open>Properties of the database garbage collection\<close>

lemmas db_prim_defs = dbEmit_def timeNow_def Since_def TriggerDatabaseCleanup_def
  CleanupHornetBadgerInstance_def Sub_def

lemma runGC_eq:
  "runGarbageCollectionWithoutLocking dr s =
     ((clock s (clockReads s + 1) - clock s (clockReads s), engine s (engineCalls s) (ratioOf dr s)),
      s\<lparr>clockReads := clockReads s + 2, engineCalls := engineCalls s + 1,
        dbTrace := dbTrace s @ passActions dr s\<rparr>)"
  by (simp add: runGarbageCollectionWithoutLocking_def db_prim_defs passActions_def ratioOf_def Let_def split: list.splits)

lemma afterPasses_fields:
  "clock (afterPasses dr k s) = clock s \<and> engine (afterPasses dr k s) = engine s
   \<and> defaultRatio (afterPasses dr k s) = defaultRatio s
   \<and> clockReads (afterPasses dr k s) = clockReads s + 2 * k
   \<and> engineCalls (afterPasses dr k s) = engineCalls s + k"
  by (induction k arbitrary: s) (simp_all add: runGC_eq)

lemma afterPasses_trace:
  "\<exists>as. dbTrace (afterPasses dr k s) = dbTrace s @ as \<and> filter isLog as = []
        \<and> length (filter isCompaction as) = k \<and> Lock \<notin> set as \<and> Unlock \<notin> set as"
proof (induction k arbitrary: s)
  case 0
  then show ?case by simp
next
  case (Suc k)
  let ?s1 = "snd (runGarbageCollectionWithoutLocking dr s)"
  from Suc[of ?s1] obtain as where as: "dbTrace (afterPasses dr k ?s1) = dbTrace ?s1 @ as"
    "filter isLog as = []" "length (filter isCompaction as) = k" "Lock \<notin> set as" "Unlock \<notin> set as" by blast
  have "dbTrace (afterPasses dr (Suc k) s) = dbTrace s @ (passActions dr s @ as)"
    using as(1) by (simp add: runGC_eq)
  moreover have "filter isLog (passActions dr s @ as) = []" using as(2) by (simp add: passActions_def)
  moreover have "length (filter isCompaction (passActions dr s @ as)) = Suc k" using as(3) by (simp add: passActions_def)
  moreover have "Lock \<notin> set (passActions dr s @ as)" "Unlock \<notin> set (passActions dr s @ as)"
    using as(4,5) by (simp_all add: passActions_def)
  ultimately show ?case by blast
qed

lemma ratioOf_afterPasses: "ratioOf dr (afterPasses dr k s) = ratioOf dr s"
  by (simp add: ratioOf_def afterPasses_fields split: list.splits)

lemma fullLoop_run:
  assumes "\<forall>k<n. engine s (engineCalls s + k) (ratioOf dr s) = None"
    and "engine s (engineCalls s + n) (ratioOf dr s) = Some e"
  shows "fullLoop dr ts None c s =
           Some (if e \<noteq> ErrNoRewrite
                 then (let (took, s2) = Since ts (afterPasses dr (Suc n) s)
                       in EarlyReturn (dbEmit (LogWarn (FullFailed e (Truncate took Millisecond))) s2))
                 else LoopEnd (c + n) (afterPasses dr (Suc n) s))"
  using assms
proof (induction n arbitrary: s c)
  case 0
  then have e: "engine s (engineCalls s) (ratioOf dr s) = Some e" by simp
  show ?case
  proof (cases "e = ErrNoRewrite")
    case True
    have "fullLoop dr ts None c s = fullLoop dr ts (Some ErrNoRewrite) c (snd (runGarbageCollectionWithoutLocking dr s))"
      by (subst fullLoop.simps) (simp add: runGC_eq e True)
    also have "\<dots> = Some (LoopEnd c (snd (runGarbageCollectionWithoutLocking dr s)))"
      by (subst fullLoop.simps) simp
    finally show ?thesis using True by simp
  next
    case False
    then show ?thesis
      by (subst fullLoop.simps) (simp add: runGC_eq e Let_def split: prod.splits)
  qed
next
  case (Suc n)
  let ?s1 = "snd (runGarbageCollectionWithoutLocking dr s)"
  from Suc.prems(1) have e0: "engine s (engineCalls s) (ratioOf dr s) = None" by force
  have step: "fullLoop dr ts None c s = fullLoop dr ts None (c + 1) ?s1"
    by (subst fullLoop.simps) (simp add: runGC_eq e0)
  have r1: "ratioOf dr ?s1 = ratioOf dr s" by (simp add: runGC_eq ratioOf_def split: list.splits)
  have p1: "\<forall>k<n. engine ?s1 (engineCalls ?s1 + k) (ratioOf dr ?s1) = None"
  proof (intro allI impI)
    fix k assume "k < n"
    then have "Suc k < Suc n" by simp
    with Suc.prems(1) have "engine s (engineCalls s + Suc k) (ratioOf dr s) = None" by blast
    then show "engine ?s1 (engineCalls ?s1 + k) (ratioOf dr ?s1) = None"
      unfolding r1 by (simp add: runGC_eq)
  qed
  have p2: "engine ?s1 (engineCalls ?s1 + n) (ratioOf dr ?s1) = Some e"
    using Suc.prems(2) unfolding r1 by (simp add: runGC_eq)
  from Suc.IH[OF p1 p2, of "c + 1"] step show ?case by simp
qed


lemma afterPasses_trace_ex:
  obtains as where "dbTrace (afterPasses dr k s) = dbTrace s @ as" "filter isLog as = []"
    "length (filter isCompaction as) = k" "Lock \<notin> set as" "Unlock \<notin> set as"
  using afterPasses_trace[of dr k s] by blast

lemma Since_eq:
  "Since ts s = (clock s (clockReads s) - ts,
                 s\<lparr>clockReads := clockReads s + 1, dbTrace := dbTrace s @ [ReadClock (clock s (clockReads s))]\<rparr>)"
  by (simp add: db_prim_defs Let_def)

lemma RunFull_unfold:
  "RunFullGarbageCollection dr s =
     (case fullLoop dr (clock s (clockReads s)) None 0 (started s) of
        None \<Rightarrow> None
      | Some (EarlyReturn s4) \<Rightarrow> Some (dbEmit Unlock s4)
      | Some (LoopEnd cleanups s4) \<Rightarrow>
          (let (took, s5) = Since (clock s (clockReads s)) s4
           in Some (dbEmit Unlock (dbEmit (LogInfo (FullFinished cleanups (Truncate took Millisecond))) s5))))"
  by (simp add: RunFullGarbageCollection_def started_def dbEmit_def timeNow_def Let_def
        split: option.splits loop_exit.splits)

lemma RunFull_result:
  assumes "\<forall>k<n. engine s (engineCalls s + k) (ratioOf dr s) = None"
    and "engine s (engineCalls s + n) (ratioOf dr s) = Some e"
  shows "\<exists>as. RunFullGarbageCollection dr s =
           Some (afterPasses dr (Suc n) (started s)
                  \<lparr>clockReads := clockReads s + 2 * n + 4,
                   dbTrace := dbTrace s @ [Lock, LogInfo RunningFull, ReadClock (clock s (clockReads s))] @ as
                     @ [ReadClock (clock s (clockReads s + 2 * n + 3)),
                        (let took = Truncate (clock s (clockReads s + 2 * n + 3) - clock s (clockReads s)) Millisecond
                         in if e = ErrNoRewrite then LogInfo (FullFinished n took) else LogWarn (FullFailed e took)),
                        Unlock]\<rparr>)
         \<and> filter isLog as = [] \<and> length (filter isCompaction as) = Suc n
         \<and> Lock \<notin> set as \<and> Unlock \<notin> set as"
proof -
  let ?s3 = "started s"
  let ?sN = "afterPasses dr (Suc n) ?s3"
  have r: "ratioOf dr ?s3 = ratioOf dr s" by (simp add: started_def ratioOf_def split: list.splits)
  have p1: "\<forall>k<n. engine ?s3 (engineCalls ?s3 + k) (ratioOf dr ?s3) = None"
    using assms(1) unfolding r by (simp add: started_def)
  have p2: "engine ?s3 (engineCalls ?s3 + n) (ratioOf dr ?s3) = Some e"
    using assms(2) unfolding r by (simp add: started_def)
  note loop = fullLoop_run[OF p1 p2, of "clock s (clockReads s)" 0]
  obtain as where as: "dbTrace ?sN = dbTrace ?s3 @ as" "filter isLog as = []"
    "length (filter isCompaction as) = Suc n" "Lock \<notin> set as" "Unlock \<notin> set as"
    by (rule afterPasses_trace_ex)
  have f: "clock ?sN = clock s" "clockReads ?sN = clockReads s + 2 * n + 3"
    using afterPasses_fields[of dr "Suc n" ?s3] by (simp_all add: started_def)
  have tr: "dbTrace ?sN = dbTrace s @ [Lock, LogInfo RunningFull, ReadClock (clock s (clockReads s))] @ as"
    using as(1) by (simp add: started_def)
  have "RunFullGarbageCollection dr s =
           Some (?sN
                  \<lparr>clockReads := clockReads s + 2 * n + 4,
                   dbTrace := dbTrace s @ [Lock, LogInfo RunningFull, ReadClock (clock s (clockReads s))] @ as
                     @ [ReadClock (clock s (clockReads s + 2 * n + 3)),
                        (let took = Truncate (clock s (clockReads s + 2 * n + 3) - clock s (clockReads s)) Millisecond
                         in if e = ErrNoRewrite then LogInfo (FullFinished n took) else LogWarn (FullFailed e took)),
                        Unlock]\<rparr>)"
    unfolding RunFull_unfold loop
    by (simp add: Since_eq f tr dbEmit_def Let_def del: afterPasses.simps)
  with as show ?thesis by blast
qed

text \<open>
  Claim C4. Let the engine complete \<open>n\<close> passes and report an error \<open>e\<close> on the next
  one. Then \<^verbatim>\<open>RunFullGarbageCollection\<close> returns, after exactly \<open>n + 1\<close> calls of the
  engine. If \<open>e\<close> is \<^verbatim>\<open>ErrNoRewrite\<close>, its last log line reports \<open>n\<close> cleanups, the
  passes that completed, the last pass not counted; for any other error the loop is left
  after the warning, and no count is reported.
\<close>

theorem RunFullGarbageCollection_terminates_and_counts:
  assumes "\<forall>k<n. engine s (engineCalls s + k) (ratioOf dr s) = None"
    and "engine s (engineCalls s + n) (ratioOf dr s) = Some e"
  shows "\<exists>s'. RunFullGarbageCollection dr s = Some s'
           \<and> length (filter isCompaction (dbPerformed s s')) = n + 1
           \<and> filter isLog (dbPerformed s s') =
               [LogInfo RunningFull,
                (let took = Truncate (clock s (clockReads s + 2 * n + 3) - clock s (clockReads s)) Millisecond
                 in if e = ErrNoRewrite then LogInfo (FullFinished n took) else LogWarn (FullFailed e took))]"
proof -
  from RunFull_result[OF assms] obtain as where
    "RunFullGarbageCollection dr s =
           Some (afterPasses dr (Suc n) (started s)
                  \<lparr>clockReads := clockReads s + 2 * n + 4,
                   dbTrace := dbTrace s @ [Lock, LogInfo RunningFull, ReadClock (clock s (clockReads s))] @ as
                     @ [ReadClock (clock s (clockReads s + 2 * n + 3)),
                        (let took = Truncate (clock s (clockReads s + 2 * n + 3) - clock s (clockReads s)) Millisecond
                         in if e = ErrNoRewrite then LogInfo (FullFinished n took) else LogWarn (FullFailed e took)),
                        Unlock]\<rparr>)"
    and "filter isLog as = []" and "length (filter isCompaction as) = Suc n"
    by blast
  then show ?thesis
    by (simp add: dbPerformed_def Let_def)
qed

text \<open>Two passes complete and the third finds nothing to rewrite: three calls of the
  engine, two cleanups reported. One pass completes and the second fails: two calls, a
  warning.\<close>

theorem RunFullGarbageCollection_terminates_and_counts_witness:
  "(\<exists>s'. RunFullGarbageCollection [1 / 100] (db (\<lambda>k r. if k < 2 then None else Some ErrNoRewrite)) = Some s'
      \<and> length (filter isCompaction (dbPerformed (db (\<lambda>k r. if k < 2 then None else Some ErrNoRewrite)) s')) = 3
      \<and> filter isLog (dbPerformed (db (\<lambda>k r. if k < 2 then None else Some ErrNoRewrite)) s') =
           [LogInfo RunningFull, LogInfo (FullFinished 2 7003000000)])
   \<and> (\<exists>s'. RunFullGarbageCollection [] (db (\<lambda>k r. if k = 0 then None else Some (ErrOther ''value log closed''))) = Some s'
      \<and> length (filter isCompaction (dbPerformed (db (\<lambda>k r. if k = 0 then None else Some (ErrOther ''value log closed''))) s')) = 2
      \<and> filter isLog (dbPerformed (db (\<lambda>k r. if k = 0 then None else Some (ErrOther ''value log closed''))) s') =
           [LogInfo RunningFull, LogWarn (FullFailed (ErrOther ''value log closed'') 5002000000)])"
  (is "?A \<and> ?B")
proof
  show ?A
    using RunFullGarbageCollection_terminates_and_counts [of 2
        "db (\<lambda>k r. if k < 2 then None else Some ErrNoRewrite)" "[1 / 100]" ErrNoRewrite]
    by (simp add: db_def ratioOf_def Truncate_def goRem_def Millisecond_def)
  show ?B
    using RunFullGarbageCollection_terminates_and_counts [of 1
        "db (\<lambda>k r. if k = 0 then None else Some (ErrOther ''value log closed''))" "[]"
        "ErrOther ''value log closed''"]
    by (simp add: db_def ratioOf_def Truncate_def goRem_def Millisecond_def numeral_2_eq_2)
qed

text \<open>
  Claim C9. One pass performs, in this order: a reading of the clock (the start), the
  cleanup event with the start, the engine's compaction with the discard ratio given (the
  engine's default when none is given), a second reading of the clock (the end), the
  cleanup event with start and end, and the run of Go's garbage collector; it returns
  the end minus the start.
\<close>

theorem runGarbageCollectionWithoutLocking_sequence:
  "(let start = clock s (clockReads s);
        endT = clock s (clockReads s + 1);
        ((took, err), s') = runGarbageCollectionWithoutLocking discardRatio s
    in dbPerformed s s' =
         [ReadClock start,
          CleanupEvent \<lparr>Start = start, End = zeroTime\<rparr>,
          RunValueLogGC (case discardRatio of [] \<Rightarrow> defaultRatio s | r # _ \<Rightarrow> r),
          ReadClock endT,
          CleanupEvent \<lparr>Start = start, End = endT\<rparr>,
          RuntimeGC]
       \<and> took = endT - start)"
  by (simp add: runGC_eq dbPerformed_def passActions_def ratioOf_def Let_def)

text \<open>A pass without a ratio uses the default one half; a pass with the ratio 0.01
  hands that to the engine.\<close>

theorem runGarbageCollectionWithoutLocking_sequence_witness:
  "dbPerformed (db (\<lambda>k r. None)) (snd (runGarbageCollectionWithoutLocking [] (db (\<lambda>k r. None))))
     = [ReadClock 0, CleanupEvent \<lparr>Start = 0, End = zeroTime\<rparr>, RunValueLogGC (1 / 2),
        ReadClock 1000500000, CleanupEvent \<lparr>Start = 0, End = 1000500000\<rparr>, RuntimeGC]
   \<and> fst (fst (runGarbageCollectionWithoutLocking [] (db (\<lambda>k r. None)))) = 1000500000
   \<and> RunValueLogGC (1 / 100) \<in> set (dbPerformed (db (\<lambda>k r. None))
        (snd (runGarbageCollectionWithoutLocking [1 / 100] (db (\<lambda>k r. None)))))"
  using runGarbageCollectionWithoutLocking_sequence [of "db (\<lambda>k r. None)" "[]"] runGarbageCollectionWithoutLocking_sequence [of "db (\<lambda>k r. None)" "[1 / 100]"]
  by (simp add: Let_def db_def split: prod.splits)

text \<open>
  Claim C10. Whatever the engine answers, an error included, a pass returns that answer
  and has published exactly two cleanup events, the started one and the finished one
  with start and end, and has run Go's garbage collector last: the events do not depend
  on the engine's answer and carry nothing of it.
\<close>

theorem runGarbageCollectionWithoutLocking_always_finishes:
  "(let start = clock s (clockReads s);
        endT = clock s (clockReads s + 1);
        ((took, err), s') = runGarbageCollectionWithoutLocking discardRatio s
    in err = engine s (engineCalls s) (ratioOf discardRatio s)
       \<and> filter isCleanupEvent (dbPerformed s s') =
           [CleanupEvent \<lparr>Start = start, End = zeroTime\<rparr>, CleanupEvent \<lparr>Start = start, End = endT\<rparr>]
       \<and> last (dbPerformed s s') = RuntimeGC)"
  by (simp add: runGC_eq dbPerformed_def passActions_def Let_def)

text \<open>A pass on which the engine fails: the error is returned, both events were published.\<close>

theorem runGarbageCollectionWithoutLocking_always_finishes_witness:
  "snd (fst (runGarbageCollectionWithoutLocking [] (db (\<lambda>k r. Some (ErrOther ''value log closed'')))))
     = Some (ErrOther ''value log closed'')
   \<and> filter isCleanupEvent (dbPerformed (db (\<lambda>k r. Some (ErrOther ''value log closed'')))
        (snd (runGarbageCollectionWithoutLocking [] (db (\<lambda>k r. Some (ErrOther ''value log closed''))))))
     = [CleanupEvent \<lparr>Start = 0, End = zeroTime\<rparr>, CleanupEvent \<lparr>Start = 0, End = 1000500000\<rparr>]
   \<and> last (dbPerformed (db (\<lambda>k r. Some (ErrOther ''value log closed'')))
        (snd (runGarbageCollectionWithoutLocking [] (db (\<lambda>k r. Some (ErrOther ''value log closed'')))))) = RuntimeGC"
  using runGarbageCollectionWithoutLocking_always_finishes [of "db (\<lambda>k r. Some (ErrOther ''value log closed''))" "[]"]
  by (simp add: Let_def db_def ratioOf_def split: prod.splits)

text \<open>
  Claim C8. \<^verbatim>\<open>RunGarbageCollection\<close> logs that it runs, calls the engine once with the
  default ratio, and logs one more line: at info level that the collection finished when
  the engine reports no error, at info level that it finished with nothing to clean up
  when the engine reports \<^verbatim>\<open>ErrNoRewrite\<close>, and a warning with the error for any other
  error. In each case the engine is called exactly once: there is no retry.
\<close>

theorem RunGarbageCollection_outcomes:
  "(let s' = RunGarbageCollection s;
        took = Truncate (clock s (clockReads s + 1) - clock s (clockReads s)) Millisecond
    in filter isLog (dbPerformed s s') =
         [LogInfo Running,
          (case engine s (engineCalls s) (defaultRatio s) of
             None \<Rightarrow> LogInfo (Finished took)
           | Some e \<Rightarrow> if e = ErrNoRewrite then LogInfo (NothingToCleanUp took)
                       else LogWarn (Failed e took))]
       \<and> length (filter isCompaction (dbPerformed s s')) = 1
       \<and> engineCalls s' = engineCalls s + 1)"
  by (simp add: RunGarbageCollection_def runGC_eq dbPerformed_def passActions_def ratioOf_def
      dbEmit_def Let_def split: option.splits)

text \<open>The two error outcomes on the example database: a pass of one second and half a
  millisecond is logged as one second.\<close>

theorem RunGarbageCollection_outcomes_witness:
  "filter isLog (dbPerformed (db (\<lambda>k r. Some ErrNoRewrite)) (RunGarbageCollection (db (\<lambda>k r. Some ErrNoRewrite))))
     = [LogInfo Running, LogInfo (NothingToCleanUp 1000000000)]
   \<and> filter isLog (dbPerformed (db (\<lambda>k r. Some (ErrOther ''value log closed'')))
        (RunGarbageCollection (db (\<lambda>k r. Some (ErrOther ''value log closed'')))))
     = [LogInfo Running, LogWarn (Failed (ErrOther ''value log closed'') 1000000000)]
   \<and> engineCalls (RunGarbageCollection (db (\<lambda>k r. Some (ErrOther ''value log closed'')))) = 1"
  using RunGarbageCollection_outcomes [of "db (\<lambda>k r. Some ErrNoRewrite)"] RunGarbageCollection_outcomes [of "db (\<lambda>k r. Some (ErrOther ''value log closed''))"]
  by (simp add: Let_def db_def Truncate_def goRem_def Millisecond_def)

section \<open>Properties of the lock\<close>

lemma lockFree_iff: "lockFree as \<longleftrightarrow> Lock \<notin> set as \<and> Unlock \<notin> set as"
  by (induction as rule: lockFree.induct) auto

lemma lockFree_append: "lockFree (xs @ ys) \<longleftrightarrow> lockFree xs \<and> lockFree ys"
  by (auto simp: lockFree_iff)

lemma inside_Cons:
  "inside (a # rest) \<longleftrightarrow> (if rest = [] then a = Unlock else a \<noteq> Lock \<and> a \<noteq> Unlock \<and> inside rest)"
  by (cases a) (auto simp: inside_def)

lemma criticalSection_Cons: "criticalSection (a # rest) \<longleftrightarrow> a = Lock \<and> inside rest"
  by (cases a) (simp_all add: criticalSection_def)

lemma criticalSection_Nil: "\<not> criticalSection []"
  by (simp add: criticalSection_def)

lemma inside_Nil: "\<not> inside []"
  by (simp add: inside_def)

lemma lockInv_fields:
  assumes "lockInv (m, ts)"
  shows "ts k = [] \<or> criticalSection (ts k) \<or> inside (ts k)" and "inside (ts k) \<longleftrightarrow> m = Some k"
  using assms unfolding lockInv_def fst_conv snd_conv by blast+

lemma step_lockInv:
  assumes "step i c c'" and "lockInv c"
  shows "lockInv c'"
  using assms(1)
proof (cases rule: step.cases)
  case (acquire ts rest)
  from assms(2) have inv: "lockInv (None, ts)" by (simp add: acquire)
  have "criticalSection (Lock # rest) \<or> inside (Lock # rest)"
    using lockInv_fields(1)[OF inv, of i] acquire(3) by simp
  then have rest: "inside rest"
    by (auto simp: criticalSection_Cons inside_Cons split: if_splits)
  have "\<And>k. k \<noteq> i \<Longrightarrow> \<not> inside (ts k)"
    using lockInv_fields(2)[OF inv] by simp
  with rest lockInv_fields(1)[OF inv] show ?thesis
    unfolding acquire(2) lockInv_def by auto
next
  case (release ts rest j)
  from assms(2) have inv: "lockInv (Some j, ts)" by (simp add: release)
  have "criticalSection (Unlock # rest) \<or> inside (Unlock # rest)"
    using lockInv_fields(1)[OF inv, of i] release(3) by simp
  then have ins: "inside (Unlock # rest)" by (simp add: criticalSection_Cons)
  then have rest: "rest = []" by (simp add: inside_Cons split: if_splits)
  from ins release(3) lockInv_fields(2)[OF inv, of i] have "j = i" by simp
  then have "\<And>k. k \<noteq> i \<Longrightarrow> \<not> inside (ts k)"
    using lockInv_fields(2)[OF inv] by simp
  with rest lockInv_fields(1)[OF inv] show ?thesis
    unfolding release(2) lockInv_def by (auto simp: inside_Nil)
next
  case (other ts a rest m)
  from assms(2) have inv: "lockInv (m, ts)" by (simp add: other)
  have "criticalSection (a # rest) \<or> inside (a # rest)"
    using lockInv_fields(1)[OF inv, of i] other(3) by simp
  with other(4) have ins: "inside (a # rest)" by (simp add: criticalSection_Cons)
  with other(4,5) have rest: "inside rest" by (simp add: inside_Cons split: if_splits)
  from ins other(3) lockInv_fields(2)[OF inv, of i] have "m = Some i" by simp
  with rest lockInv_fields[OF inv] show ?thesis
    unfolding other(2) lockInv_def by auto
qed

lemma reachable_lockInv:
  assumes "reachable c c'" and "lockInv c"
  shows "lockInv c'"
  using assms by (induction rule: reachable.induct) (auto intro: step_lockInv)

lemma criticalSection_not_inside: "criticalSection p \<Longrightarrow> \<not> inside p"
  by (cases p) (auto simp: criticalSection_Cons inside_Cons inside_Nil)

lemma lockInv_start:
  assumes "\<forall>i. ts i = [] \<or> criticalSection (ts i)"
  shows "lockInv (None, ts)"
  unfolding lockInv_def
proof (intro allI conjI)
  fix i
  from assms have c: "ts i = [] \<or> criticalSection (ts i)" by blast
  then show "snd (None, ts) i = [] \<or> criticalSection (snd (None, ts) i) \<or> inside (snd (None, ts) i)"
    by auto
  from c have "\<not> inside (ts i)"
    using criticalSection_not_inside[of "ts i"] by (auto simp: inside_Nil)
  then show "inside (snd (None, ts) i) \<longleftrightarrow> fst (None, ts) = Some i" by simp
qed

lemma lockInv_exclusive:
  assumes "lockInv (m, ts)" and "inside (ts i)" and "inside (ts j)"
  shows "i = j"
  using assms by (auto simp: lockInv_def)

lemma lockInv_blocked:
  assumes "lockInv (m, ts)" and "inside (ts i)" and "j \<noteq> i"
  shows "\<not> step j (m, ts) c'"
proof
  assume st: "step j (m, ts) c'"
  from lockInv_fields(2)[OF assms(1), of i] assms(2) have m: "m = Some i" by simp
  with lockInv_fields(2)[OF assms(1), of j] assms(3) have nj: "\<not> inside (ts j)" by simp
  with lockInv_fields(1)[OF assms(1), of j] have ty: "ts j = [] \<or> criticalSection (ts j)" by simp
  from st show False
  proof (cases rule: step.cases)
    case (acquire rest)
    with m show False by simp
  next
    case (release rest k)
    with ty show False by (simp add: criticalSection_Cons)
  next
    case (other a rest)
    with ty show False by (simp add: criticalSection_Cons)
  qed
qed



lemma RunGarbageCollection_critical:
  "criticalSection (dbPerformed s (RunGarbageCollection s))"
  by (simp add: RunGarbageCollection_def runGC_eq dbPerformed_def passActions_def dbEmit_def
      Let_def criticalSection_def inside_def split: option.splits)

lemma fullLoop_Some_error:
  assumes "fullLoop dr ts err c s = Some r"
  shows "err = None \<longrightarrow> (\<exists>n. engine s (engineCalls s + n) (ratioOf dr s) \<noteq> None)"
proof (rule fullLoop.raw_induct[where P = "\<lambda>dr ts err c s r.
    err = None \<longrightarrow> (\<exists>n. engine s (engineCalls s + n) (ratioOf dr s) \<noteq> None)", OF _ assms],
    goal_cases)
  case (1 loop dr ts err c s r)
  show ?case
  proof
    assume none: "err = None"
    let ?s1 = "snd (runGarbageCollectionWithoutLocking dr s)"
    show "\<exists>n. engine s (engineCalls s + n) (ratioOf dr s) \<noteq> None"
    proof (cases "engine s (engineCalls s) (ratioOf dr s)")
      case None
      with 1(2) none have "loop dr ts None (c + 1) ?s1 = Some r"
        by (simp add: runGC_eq)
      from 1(1)[of dr ts None "c + 1" ?s1 r, OF this] obtain n where "engine ?s1 (engineCalls ?s1 + n) (ratioOf dr ?s1) \<noteq> None"
        by blast
      moreover have "ratioOf dr ?s1 = ratioOf dr s" by (simp add: runGC_eq ratioOf_def split: list.splits)
      ultimately have "engine s (engineCalls s + Suc n) (ratioOf dr s) \<noteq> None"
        by (simp add: runGC_eq)
      then show ?thesis by blast
    next
      case (Some e)
      then have "engine s (engineCalls s + 0) (ratioOf dr s) \<noteq> None" by simp
      then show ?thesis by blast
    qed
  qed
qed

lemma first_error:
  assumes "\<exists>n. f (n::nat) \<noteq> (None :: gc_error option)"
  obtains n e where "\<forall>k<n. f k = None" "f n = Some e"
proof -
  let ?n = "LEAST n. f n \<noteq> None"
  from assms have "f ?n \<noteq> None" by (metis (mono_tags, lifting) LeastI)
  then obtain e where "f ?n = Some e" by blast
  moreover have "\<forall>k<?n. f k = None" using not_less_Least by blast
  ultimately show thesis by (rule that[rotated])
qed

lemma RunFull_Some_error:
  assumes "RunFullGarbageCollection dr s = Some s'"
  obtains n e where "\<forall>k<n. engine s (engineCalls s + k) (ratioOf dr s) = None"
    "engine s (engineCalls s + n) (ratioOf dr s) = Some e"
proof -
  from assms obtain r where "fullLoop dr (clock s (clockReads s)) None 0 (started s) = Some r"
    unfolding RunFull_unfold by (auto split: option.splits)
  from fullLoop_Some_error[OF this]
  have "\<exists>n. engine s (engineCalls s + n) (ratioOf dr s) \<noteq> None"
    by (simp add: started_def ratioOf_def split: list.splits)
  then show thesis
    by (rule first_error) (rule that)
qed

lemma RunFullGarbageCollection_critical:
  assumes "RunFullGarbageCollection dr s = Some s'"
  shows "criticalSection (dbPerformed s s')"
proof -
  from assms obtain n e where ne: "\<forall>k<n. engine s (engineCalls s + k) (ratioOf dr s) = None"
    "engine s (engineCalls s + n) (ratioOf dr s) = Some e"
    by (rule RunFull_Some_error)
  from RunFull_result[OF ne] assms obtain as where
    "dbTrace s' = dbTrace s @ [Lock, LogInfo RunningFull, ReadClock (clock s (clockReads s))] @ as
                     @ [ReadClock (clock s (clockReads s + 2 * n + 3)),
                        (let took = Truncate (clock s (clockReads s + 2 * n + 3) - clock s (clockReads s)) Millisecond
                         in if e = ErrNoRewrite then LogInfo (FullFinished n took) else LogWarn (FullFailed e took)),
                        Unlock]"
    and "Lock \<notin> set as" "Unlock \<notin> set as"
    by auto
  then show ?thesis
    by (auto simp: dbPerformed_def criticalSection_def inside_def butlast_append lockFree_append
        lockFree_iff Let_def)
qed


text \<open>When the engine never reports an error, the loop does not end and the call does
  not return.\<close>

lemma RunFullGarbageCollection_never_returns:
  assumes "\<forall>n. engine s (engineCalls s + n) (ratioOf dr s) = None"
  shows "RunFullGarbageCollection dr s = None"
proof (cases "RunFullGarbageCollection dr s")
  case None
  then show ?thesis .
next
  case (Some s')
  then obtain n e where "engine s (engineCalls s + n) (ratioOf dr s) = Some e"
    by (rule RunFull_Some_error)
  with assms show ?thesis by simp
qed

text \<open>
  Claim C5. The actions of a call of \<^verbatim>\<open>RunGarbageCollection\<close>, and of a call of
  \<^verbatim>\<open>RunFullGarbageCollection\<close> that returns, are one \<^verbatim>\<open>Lock\<close>, then actions without
  lock operations (for the full collection: all of its passes), then one \<^verbatim>\<open>Unlock\<close>.
  Let goroutines each run one such call, interleaved in any order, starting with the
  lock free. Then in every configuration they reach, at most one goroutine is inside its
  call; and while one is inside, no other goroutine has a step: a single collection
  waits at its \<^verbatim>\<open>Lock\<close> until the whole full collection has unlocked.
\<close>

theorem garbageCollectionLock_exclusive:
  assumes "\<forall>i. ts0 i = [] \<or> (\<exists>s. ts0 i = dbPerformed s (RunGarbageCollection s))
             \<or> (\<exists>dr s s'. RunFullGarbageCollection dr s = Some s' \<and> ts0 i = dbPerformed s s')"
    and "reachable (None, ts0) (m, ts)"
  shows "criticalSection (dbPerformed s1 (RunGarbageCollection s1))
       \<and> (RunFullGarbageCollection dr s2 = Some s2' \<longrightarrow> criticalSection (dbPerformed s2 s2'))
       \<and> (inside (ts i) \<and> inside (ts j) \<longrightarrow> i = j)
       \<and> (inside (ts i) \<and> j \<noteq> i \<longrightarrow> (\<forall>c'. \<not> step j (m, ts) c'))"
proof -
  have "\<forall>i. ts0 i = [] \<or> criticalSection (ts0 i)"
    using assms(1) RunGarbageCollection_critical RunFullGarbageCollection_critical by metis
  then have "lockInv (None, ts0)" by (rule lockInv_start)
  with assms(2) have inv: "lockInv (m, ts)" by (rule reachable_lockInv)
  show ?thesis
    using RunGarbageCollection_critical RunFullGarbageCollection_critical
      lockInv_exclusive[OF inv] lockInv_blocked[OF inv] by blast
qed

text \<open>Goroutine 0 has taken the lock for its full collection: goroutine 1, with its
  single collection, has no step.\<close>

theorem garbageCollectionLock_exclusive_witness:
  "inside (tl (exampleThreads 0))
   \<and> reachable (None, exampleThreads) (Some 0, exampleThreads(0 := tl (exampleThreads 0)))
   \<and> (\<forall>c'. \<not> step 1 (Some 0, exampleThreads(0 := tl (exampleThreads 0))) c')"
proof -
  let ?dbF = "db (\<lambda>k r. if k < 2 then None else Some ErrNoRewrite)"
  have "\<exists>as. RunFullGarbageCollection [] ?dbF = Some as"
    using RunFull_result[of 2 ?dbF "[]" ErrNoRewrite] by (auto simp: db_def)
  then obtain sF where sF: "RunFullGarbageCollection [] ?dbF = Some sF" by blast
  have t0: "exampleThreads 0 = dbPerformed ?dbF sF" by (simp add: exampleThreads_def sF)
  have hyp: "\<forall>i. exampleThreads i = [] \<or> (\<exists>s. exampleThreads i = dbPerformed s (RunGarbageCollection s))
             \<or> (\<exists>dr s s'. RunFullGarbageCollection dr s = Some s' \<and> exampleThreads i = dbPerformed s s')"
  proof
    fix i :: nat
    consider "i = 0" | "i = 1" | "i \<noteq> 0 \<and> i \<noteq> 1" by blast
    then show "exampleThreads i = [] \<or> (\<exists>s. exampleThreads i = dbPerformed s (RunGarbageCollection s))
             \<or> (\<exists>dr s s'. RunFullGarbageCollection dr s = Some s' \<and> exampleThreads i = dbPerformed s s')"
    proof cases
      case 1
      with sF t0 show ?thesis by blast
    next
      case 2
      then have "exampleThreads i = dbPerformed (db (\<lambda>k r. None)) (RunGarbageCollection (db (\<lambda>k r. None)))"
        by (simp add: exampleThreads_def)
      then show ?thesis by blast
    next
      case 3
      then show ?thesis by (simp add: exampleThreads_def)
    qed
  qed
  have "criticalSection (exampleThreads 0)"
    using garbageCollectionLock_exclusive [OF hyp reach_start, of _ "[]" ?dbF sF] sF t0 by simp
  then obtain rest where full: "exampleThreads 0 = Lock # rest" and rest: "inside rest"
    by (cases "exampleThreads 0") (auto simp: criticalSection_Cons criticalSection_Nil)
  have "step 0 (None, exampleThreads) (Some 0, exampleThreads(0 := rest))"
    by (rule acquire) (rule full)
  with reach_start have reach: "reachable (None, exampleThreads) (Some 0, exampleThreads(0 := rest))"
    by (rule reach_step)
  have "\<forall>c'. \<not> step 1 (Some 0, exampleThreads(0 := rest)) c'"
    using garbageCollectionLock_exclusive [OF hyp reach, of _ _ _ _ 0 1] rest by simp
  with rest reach full show ?thesis by simp
qed

end
